theory Spec2Isabelle
  imports Complex_Main "HOL-Library.Sublist"
begin

section \<open>Python strings\<close>

text \<open>
  A Python \<^verbatim>\<open>str\<close> is a sequence of Unicode code points, so a string is a list of
  natural numbers. \<open>u\<close> turns an ASCII literal into such a list; a code point beyond
  ASCII is written as its number (the rupee sign is 8377, the em dash is 8212).
\<close>

type_synonym ustr = "nat list"

definition u :: "string \<Rightarrow> ustr" where
  "u s = map of_char s"

text \<open>
  \<^verbatim>\<open>str.isspace\<close> on one code point: the whitespace table of CPython
  (U+0009..U+000D, U+001C..U+0020, U+0085, U+00A0, U+1680, U+2000..U+200A, U+2028,
  U+2029, U+202F, U+205F, U+3000).
\<close>

definition isspace :: "nat \<Rightarrow> bool" where
  "isspace c \<longleftrightarrow>
     (9 \<le> c \<and> c \<le> 13) \<or> (28 \<le> c \<and> c \<le> 32) \<or> c = 133 \<or> c = 160 \<or> c = 5760 \<or>
     (8192 \<le> c \<and> c \<le> 8202) \<or> c = 8232 \<or> c = 8233 \<or> c = 8239 \<or> c = 8287 \<or>
     c = 12288"

text \<open>\<^verbatim>\<open>s.strip()\<close>: whitespace is removed at both ends.\<close>

definition strip :: "ustr \<Rightarrow> ustr" where
  "strip s = rev (dropWhile isspace (rev (dropWhile isspace s)))"

text \<open>
  \<^verbatim>\<open>s.split("\n")\<close>: the pieces between line feeds (code point 10); \<open>cur\<close> holds the
  piece being read, reversed. The result is never empty: \<^verbatim>\<open>"".split("\n")\<close> is
  \<^verbatim>\<open>[""]\<close>.
\<close>

fun split_acc :: "ustr \<Rightarrow> ustr \<Rightarrow> ustr list" where
  "split_acc cur [] = [rev cur]"
| "split_acc cur (c # cs) =
     (if c = 10 then rev cur # split_acc [] cs else split_acc (c # cur) cs)"

definition split_lines :: "ustr \<Rightarrow> ustr list" where
  "split_lines s = split_acc [] s"

text \<open>\<^verbatim>\<open>"\n".join(ls)\<close>.\<close>

fun join_lines :: "ustr list \<Rightarrow> ustr" where
  "join_lines [] = []"
| "join_lines [l] = l"
| "join_lines (l # m # ls) = l @ 10 # join_lines (m # ls)"

text \<open>\<^verbatim>\<open>tok in s\<close> for strings: \<open>tok\<close> occurs in \<open>s\<close> as a contiguous piece.\<close>

fun contains :: "ustr \<Rightarrow> ustr \<Rightarrow> bool" where
  "contains tok [] = (tok = [])"
| "contains tok (c # cs) = (prefix tok (c # cs) \<or> contains tok cs)"

text \<open>
  \<^verbatim>\<open>s.split(tok)[0]\<close> for a non-empty \<open>tok\<close>: the text before the first occurrence of
  \<open>tok\<close>, all of \<open>s\<close> when there is none.
\<close>

fun before :: "ustr \<Rightarrow> ustr \<Rightarrow> ustr" where
  "before tok [] = []"
| "before tok (c # cs) = (if prefix tok (c # cs) then [] else c # before tok cs)"

section \<open>Cleaning the generated text\<close>

text \<open>
  The loop of \<^verbatim>\<open>clean_text\<close>: \<open>final\<close> is the list of lines kept so far. A line is
  appended when nothing is kept yet or when its stripped form differs from the stripped
  form of the last kept line.
\<close>

fun dedup_loop :: "ustr list \<Rightarrow> ustr list \<Rightarrow> ustr list" where
  "dedup_loop final [] = final"
| "dedup_loop final (line # rest) =
     (if final = [] \<or> strip line \<noteq> strip (last final)
      then dedup_loop (final @ [line]) rest
      else dedup_loop final rest)"

definition clean_text :: "ustr \<Rightarrow> ustr" where
  "clean_text text = strip (join_lines (dedup_loop [] (split_lines text)))"

section \<open>The generation adapter\<close>

text \<open>
  Exceptions. \<open>BackendError\<close> stands for any exception derived from \<^verbatim>\<open>Exception\<close>
  that the text-generation call or the reading of its result raises;
  \<open>KeyboardInterrupt\<close> stands for the exceptions that derive from
  \<^verbatim>\<open>BaseException\<close> only, which \<^verbatim>\<open>except Exception\<close> lets through.
\<close>

datatype pyexc = TypeError | ValueError | AttributeError | BackendError | KeyboardInterrupt

definition is_Exception :: "pyexc \<Rightarrow> bool" where
  "is_Exception e \<longleftrightarrow> e \<noteq> KeyboardInterrupt"

text \<open>
  The pipeline is the external text generator. Its sampling is not part of the program,
  so a pipeline is a function from the prompt and the length budget to what one call
  yields: an exception, or the value of \<^verbatim>\<open>out[0]['generated_text']\<close>.
\<close>

datatype hf_outcome = Raises pyexc | Generated ustr

type_synonym pipeline = "ustr \<Rightarrow> nat \<Rightarrow> hf_outcome"

text \<open>The module state set once at import: \<^verbatim>\<open>use_hf\<close> and \<^verbatim>\<open>hf_pipeline\<close>.\<close>

record backend =
  use_hf :: bool
  hf_pipeline :: "pipeline option"

text \<open>
  The start-up block: loading either gives a pipeline or raises an exception, which is
  caught and switches the backend off.
\<close>

definition load_backend :: "pyexc + pipeline \<Rightarrow> backend" where
  "load_backend loaded =
     (case loaded of
        Inr p \<Rightarrow> \<lparr>use_hf = True, hf_pipeline = Some p\<rparr>
      | Inl e \<Rightarrow> \<lparr>use_hf = False, hf_pipeline = None\<rparr>)"

definition stop_tokens :: "ustr list" where
  "stop_tokens = [u ''User:'', u ''Assistant:'', u ''Instruction:'', u ''Answer:'']"

text \<open>The loop over the stop tokens: each token found cuts the current result.\<close>

fun stop_loop :: "ustr list \<Rightarrow> ustr \<Rightarrow> ustr" where
  "stop_loop [] result = result"
| "stop_loop (stop_token # toks) result =
     stop_loop toks
       (if contains stop_token result then strip (before stop_token result) else result)"

definition fallback :: ustr where
  "fallback = u ''Sorry '' @ [8212] @
     u '' AI backend not configured. Install HuggingFace/Torch or connect IBM/Granite.''"

text \<open>The body of the \<^verbatim>\<open>try\<close> block of \<^verbatim>\<open>generate_text\<close>.\<close>

definition generate_try :: "pipeline \<Rightarrow> ustr \<Rightarrow> nat \<Rightarrow> pyexc + ustr" where
  "generate_try p prompt max_len =
     (case p prompt max_len of
        Raises e \<Rightarrow> Inl e
      | Generated generated \<Rightarrow>
          Inr (clean_text (stop_loop stop_tokens (strip (drop (length prompt) generated)))))"

text \<open>
  \<^verbatim>\<open>generate_text\<close>: an exception derived from \<^verbatim>\<open>Exception\<close> is caught and the
  function falls through to the fallback sentence; any other one propagates.
\<close>

definition generate_text :: "backend \<Rightarrow> ustr \<Rightarrow> nat \<Rightarrow> pyexc + ustr" where
  "generate_text b prompt max_len =
     (case (use_hf b, hf_pipeline b) of
        (True, Some p) \<Rightarrow>
          (case generate_try p prompt max_len of
             Inr r \<Rightarrow> Inr r
           | Inl e \<Rightarrow> if is_Exception e then Inr fallback else Inl e)
      | _ \<Rightarrow> Inr fallback)"

section \<open>Request data and the Python runtime\<close>

text \<open>
  The body of a request after \<^verbatim>\<open>request.get_json(force=True)\<close>. An object keeps its
  items in insertion order, and its keys are distinct, as those of a Python dict are.
  A number is modelled by the rational number it denotes: Python's \<^verbatim>\<open>int\<close> and \<^verbatim>\<open>float\<close> are not told apart, and the rounding, the
  infinities and the NaN of floating-point arithmetic are outside the model.
\<close>

datatype json =
  JNull | JBool bool | JNum rat | JStr ustr | JArr "json list" | JObj "(ustr \<times> json) list"

text \<open>
  The functions of the Python runtime that the program calls and that depend on tables
  or algorithms of the interpreter are parameters of the model:
  \<^item> \<open>str_lower\<close> is \<^verbatim>\<open>str.lower\<close>;
  \<^item> \<open>float_of_str\<close> is \<^verbatim>\<open>float(s)\<close> for a string, \<open>None\<close> when it raises
    \<^verbatim>\<open>ValueError\<close>;
  \<^item> \<open>float_repr\<close> is the text an f-string writes for a float that is not a whole
    number below \<open>10\<^sup>1\<^sup>6\<close>;
  \<^item> \<open>json_dumps\<close> is \<^verbatim>\<open>json.dumps\<close>;
  \<^item> \<open>py_str\<close> is the text an f-string writes for a value that is not a string.
\<close>

record pylib =
  str_lower :: "ustr \<Rightarrow> ustr"
  float_of_str :: "ustr \<Rightarrow> rat option"
  float_repr :: "rat \<Rightarrow> ustr"
  json_dumps :: "json \<Rightarrow> ustr"
  py_str :: "json \<Rightarrow> ustr"

text \<open>Sequencing of statements that may raise: the first exception ends the run.\<close>

definition on_ok :: "pyexc + 'a \<Rightarrow> ('a \<Rightarrow> pyexc + 'b) \<Rightarrow> pyexc + 'b" where
  "on_ok r f = (case r of Inl e \<Rightarrow> Inl e | Inr x \<Rightarrow> f x)"

text \<open>
  \<^verbatim>\<open>d.get(key, default)\<close>: only a dict has the method, on any other value the call
  raises \<^verbatim>\<open>AttributeError\<close>.
\<close>

fun dict_get :: "json \<Rightarrow> ustr \<Rightarrow> json \<Rightarrow> pyexc + json" where
  "dict_get (JObj kvs) key dflt = Inr (case map_of kvs key of Some v \<Rightarrow> v | None \<Rightarrow> dflt)"
| "dict_get _ key dflt = Inl AttributeError"

text \<open>Truth value of a value, as \<^verbatim>\<open>or\<close> tests it.\<close>

fun truthy :: "json \<Rightarrow> bool" where
  "truthy JNull = False"
| "truthy (JBool b) = b"
| "truthy (JNum x) = (x \<noteq> 0)"
| "truthy (JStr s) = (s \<noteq> [])"
| "truthy (JArr xs) = (xs \<noteq> [])"
| "truthy (JObj kvs) = (kvs \<noteq> [])"

definition py_or :: "json \<Rightarrow> json \<Rightarrow> json" where
  "py_or v w = (if truthy v then v else w)"

text \<open>\<^verbatim>\<open>float(v)\<close>.\<close>

fun py_float :: "pylib \<Rightarrow> json \<Rightarrow> pyexc + rat" where
  "py_float L (JNum x) = Inr x"
| "py_float L (JBool b) = Inr (if b then 1 else 0)"
| "py_float L (JStr s) = (case float_of_str L s of Some x \<Rightarrow> Inr x | None \<Rightarrow> Inl ValueError)"
| "py_float L JNull = Inl TypeError"
| "py_float L (JArr xs) = Inl TypeError"
| "py_float L (JObj kvs) = Inl TypeError"

text \<open>
  \<^verbatim>\<open>for t in v\<close>: a list yields its elements, a string its characters, a dict its
  keys; nothing else is iterable.
\<close>

fun py_iter :: "json \<Rightarrow> pyexc + json list" where
  "py_iter (JArr xs) = Inr xs"
| "py_iter (JStr s) = Inr (map (\<lambda>c. JStr [c]) s)"
| "py_iter (JObj kvs) = Inr (map (\<lambda>kv. JStr (fst kv)) kvs)"
| "py_iter _ = Inl TypeError"

text \<open>A value inside an f-string.\<close>

fun fmt :: "pylib \<Rightarrow> json \<Rightarrow> ustr" where
  "fmt L (JStr s) = s"
| "fmt L v = py_str L v"

text \<open>Decimal digits of a natural number.\<close>

function digits :: "nat \<Rightarrow> ustr" where
  "digits n = (if n < 10 then [48 + n] else digits (n div 10) @ [48 + n mod 10])"
  by pat_completeness auto
termination
  by (relation "measure id") auto

declare digits.simps [simp del]

text \<open>
  A float inside an f-string, \<^verbatim>\<open>f"{x}"\<close>: a whole number below \<open>10\<^sup>1\<^sup>6\<close> in absolute
  value is written with its digits and \<^verbatim>\<open>.0\<close>.
\<close>

definition fmt_float :: "pylib \<Rightarrow> rat \<Rightarrow> ustr" where
  "fmt_float L x =
     (if of_int \<lfloor>x\<rfloor> = x \<and> \<bar>x\<bar> < 10 ^ 16
      then (if x < 0 then u ''-'' else []) @ digits (nat \<lfloor>\<bar>x\<bar>\<rfloor>) @ u ''.0''
      else float_repr L x)"

text \<open>
  \<^verbatim>\<open>f"{x:.2f}"\<close>: two decimals, the exact value rounded to the nearest hundredth,
  a tie to the even one.
\<close>

definition round_half_even :: "rat \<Rightarrow> nat" where
  "round_half_even q =
     (let f = \<lfloor>q\<rfloor>; d = q - of_int f
      in nat (if d < 1 / 2 then f else if 1 / 2 < d then f + 1
              else if even f then f else f + 1))"

definition fmt_2f :: "rat \<Rightarrow> ustr" where
  "fmt_2f x =
     (let n = round_half_even (\<bar>x\<bar> * 100)
      in (if x < 0 then u ''-'' else []) @ digits (n div 100) @ u ''.'' @
         [48 + n mod 100 div 10, 48 + n mod 10])"

section \<open>Profile contexts\<close>

definition default_context :: ustr where
  "default_context = u ''Provide clear and practical personal finance advice.''"

definition PROFILE_CONTEXTS :: "(ustr \<times> ustr) list" where
  "PROFILE_CONTEXTS =
     [(u ''student'',
       u ''User is a student with limited income. Explain things in simple language with practical, low-cost steps.''),
      (u ''professional'',
       u ''User is a working professional. Provide formal, actionable advice including tax and investment options.''),
      (u ''retired'',
       u ''User is retired or near-retired. Focus on safety, fixed income, healthcare, and low-risk options.''),
      (u ''default'', default_context)]"

text \<open>A list or a dict is not hashable: using one as a dict key raises \<^verbatim>\<open>TypeError\<close>.\<close>

fun hashable :: "json \<Rightarrow> bool" where
  "hashable (JArr xs) = False"
| "hashable (JObj kvs) = False"
| "hashable _ = True"

text \<open>\<^verbatim>\<open>key in PROFILE_CONTEXTS\<close>: the keys are strings, no other value equals one.\<close>

definition in_profiles :: "json \<Rightarrow> pyexc + bool" where
  "in_profiles key =
     (if \<not> hashable key then Inl TypeError
      else Inr (case key of JStr s \<Rightarrow> s \<in> set (map fst PROFILE_CONTEXTS) | _ \<Rightarrow> False))"

text \<open>\<^verbatim>\<open>PROFILE_CONTEXTS.get(key, dflt)\<close>.\<close>

definition profiles_get :: "json \<Rightarrow> ustr \<Rightarrow> pyexc + ustr" where
  "profiles_get key dflt =
     (if \<not> hashable key then Inl TypeError
      else Inr (case key of
                  JStr s \<Rightarrow> (case map_of PROFILE_CONTEXTS s of Some c \<Rightarrow> c | None \<Rightarrow> dflt)
                | _ \<Rightarrow> dflt))"

section \<open>The endpoints\<close>



subsection \<open>Chat\<close>

definition chat_prompt :: "pylib \<Rightarrow> ustr \<Rightarrow> json \<Rightarrow> json \<Rightarrow> ustr" where
  "chat_prompt L context complexity message =
     context @ [10] @ u ''Complexity: '' @ fmt L complexity @ [10] @
     u ''Instruction: '' @ fmt L message @ [10] @ u ''Answer:''"

text \<open>The statements of \<^verbatim>\<open>api_chat\<close> before the call of \<^verbatim>\<open>generate_text\<close>.\<close>

definition api_chat_prepare :: "pylib \<Rightarrow> json \<Rightarrow> pyexc + ustr" where
  "api_chat_prepare L data =
     on_ok (dict_get data (u ''message'') (JStr [])) (\<lambda>message.
     on_ok (dict_get data (u ''demographic'') (JStr (u ''default''))) (\<lambda>demographic.
     on_ok (dict_get data (u ''complexity'') (JStr (u ''moderate''))) (\<lambda>complexity.
     on_ok (in_profiles demographic) (\<lambda>known.
     let demographic = (if known then demographic else JStr (u ''default'')) in
     on_ok (profiles_get demographic []) (\<lambda>context.
     Inr (chat_prompt L context complexity message))))))"


subsection \<open>Budget\<close>

text \<open>\<^verbatim>\<open>float(t.get("amount", 0) or 0)\<close>, as both the budget and the insights loop read it.\<close>

definition txn_amount :: "pylib \<Rightarrow> json \<Rightarrow> pyexc + rat" where
  "txn_amount L t =
     on_ok (dict_get t (u ''amount'') (JNum 0)) (\<lambda>a. py_float L (py_or a (JNum 0)))"

text \<open>\<^verbatim>\<open>sum(... for t in txns)\<close>, the running total in \<open>acc\<close>.\<close>

fun sum_amounts :: "pylib \<Rightarrow> rat \<Rightarrow> json list \<Rightarrow> pyexc + rat" where
  "sum_amounts L acc [] = Inr acc"
| "sum_amounts L acc (t # ts) = on_ok (txn_amount L t) (\<lambda>x. sum_amounts L (acc + x) ts)"

definition budget_summary :: "pylib \<Rightarrow> rat \<Rightarrow> rat \<Rightarrow> rat \<Rightarrow> ustr" where
  "budget_summary L income total_spent savings =
     u ''Monthly Income: '' @ [8377] @ fmt_float L income @ [10] @
     u ''Total Spent: '' @ [8377] @ fmt_float L total_spent @ [10] @
     u ''Estimated Savings: '' @ [8377] @ fmt_float L savings @ [10]"

definition budget_prompt :: "pylib \<Rightarrow> ustr \<Rightarrow> json \<Rightarrow> rat \<Rightarrow> ustr" where
  "budget_prompt L context txns income =
     context @ [10] @ u ''Given the following transactions: '' @ json_dumps L txns @ [10] @
     u ''Income: '' @ fmt_float L income @ [10] @
     u ''Instruction: Write an easy-to-read budget summary and 3 suggestions to improve savings.'' @
     [10] @ u ''Answer:''"

text \<open>
  The statements of \<^verbatim>\<open>api_budget\<close> before the call of \<^verbatim>\<open>generate_text\<close>: the
  summary block and the prompt.
\<close>

definition api_budget_prepare :: "pylib \<Rightarrow> json \<Rightarrow> pyexc + ustr \<times> ustr" where
  "api_budget_prepare L data =
     on_ok (dict_get data (u ''incomeMonthly'') (JNum 0)) (\<lambda>i.
     on_ok (py_float L (py_or i (JNum 0))) (\<lambda>income.
     on_ok (dict_get data (u ''transactions'') (JArr [])) (\<lambda>txns.
     on_ok (dict_get data (u ''demographic'') (JStr (u ''default''))) (\<lambda>demographic.
     on_ok (py_iter txns) (\<lambda>ts.
     on_ok (sum_amounts L 0 ts) (\<lambda>total_spent.
     let savings = income - total_spent;
         summary = budget_summary L income total_spent savings in
     on_ok (profiles_get demographic []) (\<lambda>context.
     Inr (summary, budget_prompt L context txns income))))))))"


subsection \<open>Insights\<close>

text \<open>\<^verbatim>\<open>(t.get("desc", "") or "").lower()\<close>: only a string has \<^verbatim>\<open>lower\<close>.\<close>

definition txn_desc :: "pylib \<Rightarrow> json \<Rightarrow> pyexc + ustr" where
  "txn_desc L t =
     on_ok (dict_get t (u ''desc'') (JStr [])) (\<lambda>d.
       case py_or d (JStr []) of JStr s \<Rightarrow> Inr (str_lower L s) | _ \<Rightarrow> Inl AttributeError)"

text \<open>The \<^verbatim>\<open>if\<close>/\<^verbatim>\<open>elif\<close> chain over the lower-cased description.\<close>

definition category_of :: "ustr \<Rightarrow> ustr" where
  "category_of desc =
     (if list_ex (\<lambda>k. contains k desc) [u ''rent'', u ''home''] then u ''Rent''
      else if list_ex (\<lambda>k. contains k desc) [u ''food'', u ''dine'', u ''restaurant'', u ''cafe'']
        then u ''Dining''
      else if list_ex (\<lambda>k. contains k desc) [u ''grocery'', u ''supermarket''] then u ''Grocery''
      else if list_ex (\<lambda>k. contains k desc) [u ''tax'', u ''income tax''] then u ''Taxes''
      else u ''Other'')"

text \<open>
  The dict \<^verbatim>\<open>categories\<close> is a list of items in insertion order:
  \<^verbatim>\<open>categories.get(cat, 0)\<close> and \<^verbatim>\<open>categories[cat] = v\<close>, which keeps the place
  of a key that is present and appends a new one.
\<close>

definition cat_get :: "(ustr \<times> rat) list \<Rightarrow> ustr \<Rightarrow> rat" where
  "cat_get categories cat = (case map_of categories cat of Some v \<Rightarrow> v | None \<Rightarrow> 0)"

fun cat_set :: "(ustr \<times> rat) list \<Rightarrow> ustr \<Rightarrow> rat \<Rightarrow> (ustr \<times> rat) list" where
  "cat_set [] cat v = [(cat, v)]"
| "cat_set ((c, w) # rest) cat v =
     (if c = cat then (c, v) # rest else (c, w) # cat_set rest cat v)"

text \<open>The loop over the transactions.\<close>

fun tally :: "pylib \<Rightarrow> (ustr \<times> rat) list \<Rightarrow> json list \<Rightarrow> pyexc + (ustr \<times> rat) list" where
  "tally L categories [] = Inr categories"
| "tally L categories (t # ts) =
     on_ok (txn_desc L t) (\<lambda>desc.
     on_ok (txn_amount L t) (\<lambda>amt.
     let cat = category_of desc in
     tally L (cat_set categories cat (cat_get categories cat + amt)) ts))"

text \<open>
  \<^verbatim>\<open>max(items, key=lambda x: x[1])\<close> after its first item: a later item replaces the
  best one only when its value is strictly greater.
\<close>

fun max_loop :: "ustr \<times> rat \<Rightarrow> (ustr \<times> rat) list \<Rightarrow> ustr \<times> rat" where
  "max_loop best [] = best"
| "max_loop best (x # xs) = max_loop (if snd best < snd x then x else best) xs"

definition no_transactions :: ustr where
  "no_transactions = u ''No transactions supplied '' @ [8212] @
     u '' provide some transactions for insights.''"

definition insights_line :: "(ustr \<times> rat) list \<Rightarrow> ustr" where
  "insights_line categories =
     (case categories of
        first # rest \<Rightarrow>
          (let top_cat = max_loop first rest
           in u ''Top spending category: '' @ fst top_cat @ u '' ('' @ [8377] @
              fmt_2f (snd top_cat) @ u ''). Consider reducing it by 10%.'')
      | [] \<Rightarrow> no_transactions)"

definition insights_prompt :: "pylib \<Rightarrow> ustr \<Rightarrow> (ustr \<times> rat) list \<Rightarrow> ustr" where
  "insights_prompt L context categories =
     context @ [10] @ u ''Transactions summary: '' @
     json_dumps L (JObj (map (\<lambda>(c, v). (c, JNum v)) categories)) @ [10] @
     u ''Instruction: Give 3 actionable spending insights in short sentences.'' @
     [10] @ u ''Answer:''"

text \<open>
  The statements of \<^verbatim>\<open>api_insights\<close> before the call of \<^verbatim>\<open>generate_text\<close>: the
  insights line and the prompt.
\<close>

definition api_insights_prepare :: "pylib \<Rightarrow> json \<Rightarrow> pyexc + ustr \<times> ustr" where
  "api_insights_prepare L data =
     on_ok (dict_get data (u ''transactions'') (JArr [])) (\<lambda>txns.
     on_ok (dict_get data (u ''demographic'') (JStr (u ''default''))) (\<lambda>demographic.
     on_ok (py_iter txns) (\<lambda>ts.
     on_ok (tally L [] ts) (\<lambda>categories.
     let insights = insights_line categories in
     on_ok (profiles_get demographic []) (\<lambda>context.
     Inr (insights, insights_prompt L context categories))))))"


section \<open>Definitions used to state the properties\<close>

subsection \<open>Test doubles\<close>

text \<open>
  A pipeline that answers every prompt with the prompt followed by a fixed continuation,
  as the text-generation pipeline echoes the prompt before what it generates.
\<close>

definition echo_pipeline :: "ustr \<Rightarrow> pipeline" where
  "echo_pipeline continuation prompt max_len = Generated (prompt @ continuation)"

text \<open>A pipeline whose call raises the given exception.\<close>

definition failing_pipeline :: "pyexc \<Rightarrow> pipeline" where
  "failing_pipeline e prompt max_len = Raises e"

text \<open>
  A small runtime for running examples. On ASCII text \<open>ascii_lower\<close> is
  \<^verbatim>\<open>str.lower\<close>; \<open>plain_float\<close> reads an unsigned string of ASCII digits, with
  whitespace around it, as \<^verbatim>\<open>float\<close> does, and rejects every other string (of
  which \<^verbatim>\<open>float\<close> accepts some: signs, points, exponents, \<^verbatim>\<open>inf\<close>, \<^verbatim>\<open>nan\<close>). The
  three formatters write nothing.
\<close>

definition ascii_lower :: "ustr \<Rightarrow> ustr" where
  "ascii_lower s = map (\<lambda>c. if 65 \<le> c \<and> c \<le> 90 then c + 32 else c) s"

definition plain_float :: "ustr \<Rightarrow> rat option" where
  "plain_float s =
     (let t = strip s
      in if t \<noteq> [] \<and> list_all (\<lambda>c. 48 \<le> c \<and> c \<le> 57) t
         then Some (of_nat (foldl (\<lambda>a c. 10 * a + (c - 48)) 0 t))
         else None)"

definition plain_lib :: pylib where
  "plain_lib = \<lparr>str_lower = ascii_lower, float_of_str = plain_float,
     float_repr = (\<lambda>x. []), json_dumps = (\<lambda>v. []), py_str = (\<lambda>v. [])\<rparr>"

subsection \<open>Truncation\<close>

text \<open>
  The truncation as the specification words it: the stop tokens are checked in their
  order, and the text is cut at the first occurrence of the first token that is found.
\<close>

fun spec_priority_cut :: "ustr list \<Rightarrow> ustr \<Rightarrow> ustr" where
  "spec_priority_cut [] result = result"
| "spec_priority_cut (tok # toks) result =
     (if contains tok result then strip (before tok result)
      else spec_priority_cut toks result)"

text \<open>The text before the earliest occurrence of any of the tokens.\<close>

fun before_earliest :: "ustr list \<Rightarrow> ustr \<Rightarrow> ustr" where
  "before_earliest toks [] = []"
| "before_earliest toks (c # cs) =
     (if list_ex (\<lambda>t. prefix t (c # cs)) toks then [] else c # before_earliest toks cs)"

definition lstrip :: "ustr \<Rightarrow> ustr" where
  "lstrip s = dropWhile isspace s"

definition rstrip :: "ustr \<Rightarrow> ustr" where
  "rstrip s = rev (dropWhile isspace (rev s))"

text \<open>A token is solid when it is not empty and has no whitespace.\<close>

definition solid :: "ustr \<Rightarrow> bool" where
  "solid t \<longleftrightarrow> t \<noteq> [] \<and> list_all (\<lambda>c. \<not> isspace c) t"

text \<open>
  Two tokens are apart when no occurrence of \<open>b\<close> can begin inside an occurrence of
  \<open>a\<close>; a list of tokens is separated when every later token is apart from every
  earlier one.
\<close>

definition apart :: "ustr \<Rightarrow> ustr \<Rightarrow> bool" where
  "apart a b \<longleftrightarrow>
     list_all (\<lambda>k. \<not> prefix b (drop k a) \<and> \<not> prefix (drop k a) b) [1..<length a]"

fun separated :: "ustr list \<Rightarrow> bool" where
  "separated [] = True"
| "separated (t # ts) = (list_all (\<lambda>t'. apart t' t) ts \<and> separated ts)"

subsection \<open>Duplicate lines\<close>

text \<open>
  Runs of lines with the same stripped form, each collapsed to its first line: a line is
  dropped when its stripped form is that of the line before it.
\<close>

fun collapse_runs :: "ustr list \<Rightarrow> ustr list" where
  "collapse_runs [] = []"
| "collapse_runs [l] = [l]"
| "collapse_runs (l # m # ls) =
     (if strip m = strip l then collapse_runs (l # ls) else l # collapse_runs (m # ls))"

subsection \<open>Categories\<close>







section \<open>Facts about strings\<close>

lemma contains_sublist: "contains t s \<longleftrightarrow> sublist t s"
  by (induction s) (auto simp: sublist_Cons_right)

lemma sublist_trans: "sublist a b \<Longrightarrow> sublist b c \<Longrightarrow> sublist a (c::'a list)"
  by (rule sublist_order.order.trans)

lemma strip_lr: "strip s = rstrip (lstrip s)"
  by (simp add: strip_def lstrip_def rstrip_def)

lemma rstrip_prefix: "prefix (rstrip s) s"
proof -
  have "suffix (dropWhile isspace (rev s)) (rev s)" by (rule suffix_dropWhile)
  then show ?thesis unfolding rstrip_def by (simp add: suffix_to_prefix)
qed

lemma sublist_strip: "sublist (strip s) s"
proof -
  have "sublist (rstrip (lstrip s)) (lstrip s)"
    using rstrip_prefix prefix_imp_sublist by blast
  moreover have "sublist (lstrip s) s" by (simp add: lstrip_def)
  ultimately show ?thesis unfolding strip_lr by (rule sublist_trans)
qed

lemma before_prefix: "prefix (before t s) s"
  by (induction s) auto

lemma before_earliest_prefix: "prefix (before_earliest ts s) s"
  by (induction s) auto

lemma before_absent: "t \<noteq> [] \<Longrightarrow> \<not> sublist t (before t s)"
proof (induction s)
  case Nil then show ?case by simp
next
  case (Cons c cs)
  show ?case
  proof (cases "prefix t (c # cs)")
    case True then show ?thesis using Cons.prems by simp
  next
    case False
    have "\<not> prefix t (c # before t cs)"
      using False before_prefix[of t cs] by (meson Cons_prefix_Cons prefix_order.trans)
    then show ?thesis using False Cons by (simp add: sublist_Cons_right)
  qed
qed

lemma stop_loop_sublist: "sublist (stop_loop toks r) r"
proof (induction toks arbitrary: r)
  case Nil then show ?case by simp
next
  case (Cons t toks)
  let ?r = "if contains t r then strip (before t r) else r"
  have "sublist ?r r"
    using sublist_strip[of "before t r"] before_prefix[of t r]
    by (auto intro: sublist_trans prefix_imp_sublist)
  with Cons.IH[of ?r] show ?case
    by (metis stop_loop.simps(2) sublist_trans)
qed

lemma stop_loop_absent:
  "t \<in> set toks \<Longrightarrow> t \<noteq> [] \<Longrightarrow> \<not> sublist t (stop_loop toks r)"
proof (induction toks arbitrary: r)
  case Nil then show ?case by simp
next
  case (Cons a toks)
  let ?r = "if contains a r then strip (before a r) else r"
  show ?case
  proof (cases "t = a")
    case True
    have "\<not> sublist t ?r"
    proof (cases "contains a r")
      case True
      have "\<not> sublist t (before a r)" using \<open>t = a\<close> Cons.prems(2) before_absent by blast
      then show ?thesis using True sublist_strip[of "before a r"]
        by (auto dest: sublist_trans)
    next
      case False then show ?thesis using \<open>t = a\<close> by (simp add: contains_sublist)
    qed
    moreover have "sublist (stop_loop toks ?r) ?r" by (rule stop_loop_sublist)
    ultimately show ?thesis by (metis stop_loop.simps(2) sublist_trans)
  next
    case False
    then have "t \<in> set toks" using Cons.prems by simp
    from Cons.IH[OF this Cons.prems(2), of ?r] show ?thesis by simp
  qed
qed


subsection \<open>Substrings of the cleaned text\<close>

lemma split_acc_sublist: "l \<in> set (split_acc cur s) \<Longrightarrow> sublist l (rev cur @ s)"
proof (induction s arbitrary: cur)
  case Nil then show ?case by simp
next
  case (Cons c cs)
  show ?case
  proof (cases "c = 10")
    case True
    with Cons.prems have "l = rev cur \<or> l \<in> set (split_acc [] cs)" by simp
    then show ?thesis
    proof
      assume "l = rev cur" then show ?thesis by simp
    next
      assume "l \<in> set (split_acc [] cs)"
      then have "sublist l cs" using Cons.IH[of "[]"] by simp
      moreover have "sublist cs (rev cur @ c # cs)"
        by (rule suffix_imp_sublist) (simp add: suffix_def)
      ultimately show ?thesis by (rule sublist_trans)
    qed
  next
    case False
    with Cons.prems have "l \<in> set (split_acc (c # cur) cs)" by simp
    from Cons.IH[OF this] show ?thesis by simp
  qed
qed

lemma split_lines_sublist: "l \<in> set (split_lines s) \<Longrightarrow> sublist l s"
  using split_acc_sublist[of l "[]" s] by (simp add: split_lines_def)

lemma dedup_loop_set: "set (dedup_loop final ls) \<subseteq> set final \<union> set ls"
proof (induction ls arbitrary: final)
  case Nil then show ?case by simp
next
  case (Cons l ls)
  show ?case using Cons.IH[of "final @ [l]"] Cons.IH[of final] by auto
qed

lemma join_lines_sublist:
  "sublist t (join_lines ls) \<Longrightarrow> t \<noteq> [] \<Longrightarrow> 10 \<notin> set t \<Longrightarrow> \<exists>l\<in>set ls. sublist t l"
proof (induction ls rule: join_lines.induct)
  case 1 then show ?case by simp
next
  case (2 l) then show ?case by simp
next
  case (3 l m ls)
  from "3.prems"(1) have "sublist t (l @ 10 # join_lines (m # ls))" by simp
  then consider (a) "sublist t l" | (b) "sublist t (10 # join_lines (m # ls))"
    | (c) t1 t2 where "t = t1 @ t2" "suffix t1 l" "prefix t2 (10 # join_lines (m # ls))"
    by (auto simp: sublist_append)
  then show ?case
  proof cases
    case a then show ?thesis by auto
  next
    case b
    have "\<not> prefix t (10 # join_lines (m # ls))"
      using "3.prems"(2,3) by (cases t) auto
    with b have "sublist t (join_lines (m # ls))" by (simp add: sublist_Cons_right)
    from "3.IH"[OF this "3.prems"(2,3)] show ?thesis by auto
  next
    case c
    have "t2 = []"
    proof (rule ccontr)
      assume "t2 \<noteq> []"
      then have "hd t2 = 10" using c(3) by (cases t2) auto
      then have "10 \<in> set t" using c(1) \<open>t2 \<noteq> []\<close> by (cases t2) auto
      with "3.prems"(3) show False by simp
    qed
    with c have "sublist t l" by auto
    then show ?thesis by auto
  qed
qed

lemma clean_text_sublist:
  assumes "sublist t (clean_text s)" "t \<noteq> []" "10 \<notin> set t"
  shows "sublist t s"
proof -
  let ?j = "join_lines (dedup_loop [] (split_lines s))"
  have "sublist t ?j"
    using assms(1) sublist_strip[of ?j] unfolding clean_text_def by (rule sublist_trans)
  from join_lines_sublist[OF this assms(2,3)]
  obtain l where l: "l \<in> set (dedup_loop [] (split_lines s))" "sublist t l" by blast
  from l(1) dedup_loop_set[of "[]" "split_lines s"] have "l \<in> set (split_lines s)" by auto
  then have "sublist l s" by (rule split_lines_sublist)
  with l(2) show ?thesis by (rule sublist_trans)
qed

lemma instruction_absent:
  "\<not> contains (u ''Instruction:'') (clean_text (stop_loop stop_tokens r))"
proof
  let ?t = "u ''Instruction:''"
  have t: "?t \<noteq> []" "10 \<notin> set ?t" "?t \<in> set stop_tokens"
    by (simp_all add: u_def stop_tokens_def)
  assume "contains ?t (clean_text (stop_loop stop_tokens r))"
  then have "sublist ?t (clean_text (stop_loop stop_tokens r))" by (simp add: contains_sublist)
  then have "sublist ?t (stop_loop stop_tokens r)" using t(1,2) by (rule clean_text_sublist)
  with stop_loop_absent[OF t(3) t(1)] show False by blast
qed

subsection \<open>Collapsing runs of lines\<close>

lemma dedup_loop_collapse:
  "dedup_loop (pre @ [k]) ls = pre @ collapse_runs (k # ls)"
proof (induction ls arbitrary: pre k)
  case Nil then show ?case by simp
next
  case (Cons l ls)
  show ?case
  proof (cases "strip l = strip k")
    case True
    then show ?thesis using Cons.IH[of pre k] by simp
  next
    case False
    then show ?thesis using Cons.IH[of "pre @ [k]" l] by simp
  qed
qed

lemma dedup_loop_Nil: "dedup_loop [] ls = collapse_runs ls"
proof (cases ls)
  case Nil then show ?thesis by simp
next
  case (Cons l rest)
  then show ?thesis using dedup_loop_collapse[of "[]" l rest] by simp
qed

lemma collapse_runs_strip: "map strip (collapse_runs ls) = remdups_adj (map strip ls)"
  by (induction ls rule: collapse_runs.induct) auto

lemma strip_no_lead: "takeWhile isspace (strip s) = []"
proof -
  have "takeWhile isspace (rstrip (lstrip s)) = []"
  proof (cases "rstrip (lstrip s)")
    case Nil then show ?thesis by simp
  next
    case (Cons c cs)
    have "prefix (rstrip (lstrip s)) (lstrip s)" by (rule rstrip_prefix)
    with Cons have "lstrip s \<noteq> []" "hd (lstrip s) = c" by (auto simp: prefix_def)
    then have "\<not> isspace c" unfolding lstrip_def using hd_dropWhile by blast
    with Cons show ?thesis by simp
  qed
  then show ?thesis by (simp add: strip_lr)
qed

lemma strip_no_trail: "takeWhile isspace (rev (strip s)) = []"
proof -
  have "rev (strip s) = dropWhile isspace (rev (dropWhile isspace s))"
    by (simp add: strip_def)
  then show ?thesis
    by (metis hd_dropWhile takeWhile.simps(1) takeWhile_eq_Nil_iff list.set_sel(1) takeWhile_dropWhile_id)
qed


subsection \<open>The stop loop cuts at the earliest token\<close>

lemma before_id: "\<not> sublist t s \<Longrightarrow> before t s = s"
  by (induction s) (auto simp: sublist_Cons_right)

lemma before_earliest_id: "\<forall>t\<in>set ts. \<not> sublist t s \<Longrightarrow> before_earliest ts s = s"
proof (induction s)
  case Nil then show ?case by simp
next
  case (Cons c cs)
  have "\<not> list_ex (\<lambda>t. prefix t (c # cs)) ts"
    using Cons.prems by (auto simp: list_ex_iff)
  moreover have "\<forall>t\<in>set ts. \<not> sublist t cs"
    using Cons.prems by (auto simp: sublist_Cons_right)
  ultimately show ?case using Cons.IH by simp
qed

lemma solid_prefix_ws:
  assumes "solid t" "list_all isspace w"
  shows "prefix t (a @ w) \<longleftrightarrow> prefix t a"
proof
  assume "prefix t (a @ w)"
  then consider "prefix t a" | us where "t = a @ us" "prefix us w"
    by (auto simp: prefix_append)
  then show "prefix t a"
  proof cases
    case 1 then show ?thesis .
  next
    case 2
    show ?thesis
    proof (cases us)
      case Nil with 2 show ?thesis by simp
    next
      case (Cons x xs)
      with 2 have "x \<in> set w" "x \<in> set t" by (auto simp: prefix_def)
      with assms show ?thesis by (auto simp: solid_def list_all_iff)
    qed
  qed
next
  assume "prefix t a" then show "prefix t (a @ w)" by (rule prefix_prefix)
qed

lemma solid_sublist_ws:
  assumes "solid t" "list_all isspace w"
  shows "sublist t (a @ w) \<longleftrightarrow> sublist t a"
proof (induction a)
  case Nil
  have "\<not> sublist t w"
  proof
    assume "sublist t w"
    then have "set t \<subseteq> set w" by (rule set_mono_sublist)
    with assms show False by (cases t) (auto simp: solid_def list_all_iff)
  qed
  moreover have "t \<noteq> []" using assms by (simp add: solid_def)
  ultimately show ?case by simp
next
  case (Cons c cs)
  have "prefix t ((c # cs) @ w) \<longleftrightarrow> prefix t (c # cs)" using assms by (rule solid_prefix_ws)
  with Cons show ?case by (simp add: sublist_Cons_right)
qed

lemma solid_sublist_lstrip:
  assumes "solid t"
  shows "sublist t (lstrip s) \<longleftrightarrow> sublist t s"
proof (induction s)
  case Nil then show ?case by (simp add: lstrip_def)
next
  case (Cons c cs)
  show ?case
  proof (cases "isspace c")
    case True
    then have "\<not> prefix t (c # cs)" using assms by (cases t) (auto simp: solid_def)
    with True Cons show ?thesis by (simp add: lstrip_def sublist_Cons_right)
  next
    case False then show ?thesis by (simp add: lstrip_def)
  qed
qed

lemma rstrip_decomp: "\<exists>w. s = rstrip s @ w \<and> list_all isspace w"
proof -
  let ?w = "rev (takeWhile isspace (rev s))"
  have "rev (takeWhile isspace (rev s) @ dropWhile isspace (rev s)) = s"
    by (simp only: takeWhile_dropWhile_id rev_rev_ident)
  then have "s = rstrip s @ ?w" by (simp only: rev_append rstrip_def)
  moreover have "list_all isspace ?w" by (auto simp: list_all_iff dest: set_takeWhileD)
  ultimately show ?thesis by blast
qed

lemma solid_sublist_rstrip:
  assumes "solid t"
  shows "sublist t (rstrip s) \<longleftrightarrow> sublist t s"
proof -
  obtain w where w: "s = rstrip s @ w" "list_all isspace w" using rstrip_decomp by blast
  have "sublist t (rstrip s @ w) \<longleftrightarrow> sublist t (rstrip s)"
    using assms w(2) by (rule solid_sublist_ws)
  with w(1) show ?thesis by simp
qed

lemma solid_sublist_strip: "solid t \<Longrightarrow> sublist t (strip s) \<longleftrightarrow> sublist t s"
  by (simp add: strip_lr solid_sublist_rstrip solid_sublist_lstrip)

lemma before_earliest_lstrip:
  assumes "list_all solid ts"
  shows "before_earliest ts (lstrip s) = lstrip (before_earliest ts s)"
proof (induction s)
  case Nil then show ?case by (simp add: lstrip_def)
next
  case (Cons c cs)
  show ?case
  proof (cases "isspace c")
    case True
    have "\<not> list_ex (\<lambda>t. prefix t (c # cs)) ts"
    proof
      assume "list_ex (\<lambda>t. prefix t (c # cs)) ts"
      then obtain t where t: "t \<in> set ts" "prefix t (c # cs)" by (auto simp: list_ex_iff)
      from t(1) assms have "solid t" by (simp add: list_all_iff)
      with t(2) True show False by (cases t) (auto simp: solid_def)
    qed
    with True Cons show ?thesis by (simp add: lstrip_def)
  next
    case False then show ?thesis by (simp add: lstrip_def)
  qed
qed

lemma before_earliest_ws:
  assumes "list_all solid ts" "list_all isspace w" "\<exists>t\<in>set ts. sublist t a"
  shows "before_earliest ts (a @ w) = before_earliest ts a"
  using assms(3)
proof (induction a)
  case Nil
  then have "[] \<in> set ts" by simp
  with assms(1) show ?case by (auto simp: list_all_iff solid_def)
next
  case (Cons c cs)
  have eq: "list_ex (\<lambda>t. prefix t ((c # cs) @ w)) ts \<longleftrightarrow> list_ex (\<lambda>t. prefix t (c # cs)) ts"
    using assms(1,2) solid_prefix_ws[of _ w "c # cs"] by (auto simp: list_ex_iff list_all_iff)
  show ?case
  proof (cases "list_ex (\<lambda>t. prefix t (c # cs)) ts")
    case True with eq show ?thesis by simp
  next
    case False
    with Cons.prems have "\<exists>t\<in>set ts. sublist t cs"
      by (auto simp: list_ex_iff sublist_Cons_right)
    from Cons.IH[OF this] False eq show ?thesis by simp
  qed
qed

lemma strip_lstrip: "strip (lstrip s) = strip s"
  by (simp add: strip_def lstrip_def)

lemma strip_before_earliest:
  assumes "list_all solid ts" "\<exists>t\<in>set ts. sublist t s"
  shows "strip (before_earliest ts (strip s)) = strip (before_earliest ts s)"
proof -
  obtain w where w: "lstrip s = rstrip (lstrip s) @ w" "list_all isspace w"
    using rstrip_decomp by blast
  from assms obtain t where t: "t \<in> set ts" "solid t" "sublist t s" by (auto simp: list_all_iff)
  then have "sublist t (rstrip (lstrip s))"
    by (simp add: solid_sublist_rstrip solid_sublist_lstrip)
  with t(1) have "\<exists>t\<in>set ts. sublist t (rstrip (lstrip s))" by blast
  from before_earliest_ws[OF assms(1) w(2) this] w(1)
  have "before_earliest ts (rstrip (lstrip s)) = before_earliest ts (lstrip s)" by simp
  then show ?thesis
    by (simp add: strip_lr[of s] before_earliest_lstrip[OF assms(1)] strip_lstrip)
qed

lemma before_hit: "before t s \<noteq> s \<Longrightarrow> prefix t (drop (length (before t s)) s)"
  by (induction s) (auto split: if_splits)

lemma before_then_earliest:
  assumes "list_all (\<lambda>t'. apart t' t) ts"
  shows "before_earliest ts (before t s) = before_earliest (t # ts) s"
proof (induction s)
  case Nil then show ?case by simp
next
  case (Cons c cs)
  show ?case
  proof (cases "prefix t (c # cs)")
    case True then show ?thesis by simp
  next
    case False
    let ?b = "c # before t cs"
    have b: "before t (c # cs) = ?b" using False by simp
    have "prefix t' ?b \<longleftrightarrow> prefix t' (c # cs)" if t': "t' \<in> set ts" for t'
    proof
      assume "prefix t' ?b"
      moreover have "prefix ?b (c # cs)" using before_prefix[of t cs] by simp
      ultimately show "prefix t' (c # cs)" by (rule prefix_order.trans)
    next
      assume p: "prefix t' (c # cs)"
      show "prefix t' ?b"
      proof (rule ccontr)
        assume n: "\<not> prefix t' ?b"
        have "prefix ?b (c # cs)" using before_prefix[of t cs] by simp
        with p have "prefix t' ?b \<or> prefix ?b t'" by (rule prefix_same_cases)
        with n have bt: "prefix ?b t'" by blast
        with n have len: "length ?b < length t'"
          by (metis le_neq_implies_less prefix_length_le prefix_order.eq_iff prefix_length_prefix order_refl)
        from p obtain rest where rest: "c # cs = t' @ rest" by (auto simp: prefix_def)
        have "?b \<noteq> c # cs" using bt n p by auto
        with b have "before t (c # cs) \<noteq> c # cs" by simp
        from before_hit[OF this] b have "prefix t (drop (length ?b) (c # cs))" by simp
        with rest len have "prefix t (drop (length ?b) t' @ rest)" by simp
        then have "prefix t (drop (length ?b) t') \<or> prefix (drop (length ?b) t') t"
          unfolding prefix_append by (blast intro: prefixI)
        moreover have "length ?b \<in> set [1..<length t']" using len by simp
        ultimately show False using assms t' by (auto simp: list_all_iff apart_def)
      qed
    qed
    then have "list_ex (\<lambda>t'. prefix t' ?b) ts \<longleftrightarrow> list_ex (\<lambda>t'. prefix t' (c # cs)) ts"
      by (auto simp: list_ex_iff)
    with False Cons show ?thesis by simp
  qed
qed

lemma stop_loop_earliest:
  "list_all solid toks \<Longrightarrow> separated toks \<Longrightarrow>
   stop_loop toks r =
     (if list_ex (\<lambda>t. contains t r) toks then strip (before_earliest toks r) else r)"
proof (induction toks arbitrary: r)
  case Nil then show ?case by simp
next
  case (Cons t ts)
  then have solid: "solid t" "list_all solid ts" and ap: "list_all (\<lambda>t'. apart t' t) ts"
    and sep: "separated ts" by simp_all
  note IH = Cons.IH[OF solid(2) sep]
  note comm = before_then_earliest[OF ap]
  show ?case
  proof (cases "contains t r")
    case True
    let ?b = "before t r"
    have ex: "list_ex (\<lambda>t'. contains t' (strip ?b)) ts \<longleftrightarrow> (\<exists>t'\<in>set ts. sublist t' ?b)"
      using solid(2) by (auto simp: list_ex_iff list_all_iff contains_sublist solid_sublist_strip)
    show ?thesis
    proof (cases "\<exists>t'\<in>set ts. sublist t' ?b")
      case ex': True
      from strip_before_earliest[OF solid(2) ex']
      have "strip (before_earliest ts (strip ?b)) = strip (before_earliest (t # ts) r)"
        by (simp add: comm)
      with True ex ex' IH[of "strip ?b"] show ?thesis by simp
    next
      case ex': False
      then have "before_earliest ts ?b = ?b" by (simp add: before_earliest_id)
      then have "before_earliest (t # ts) r = ?b" by (simp add: comm[symmetric])
      with True ex ex' IH[of "strip ?b"] show ?thesis by simp
    qed
  next
    case False
    then have "before t r = r" by (simp add: before_id contains_sublist)
    then have "before_earliest (t # ts) r = before_earliest ts r"
      using comm[of r] by simp
    with False IH[of r] show ?thesis by simp
  qed
qed

lemma stop_tokens_ok: "list_all solid stop_tokens" "separated stop_tokens"
  by (simp_all add: stop_tokens_def solid_def isspace_def u_def apart_def upt_conv_Cons prefix_def)

section \<open>Facts about the endpoints\<close>

lemma on_ok_Inr: "on_ok r f = Inr y \<longleftrightarrow> (\<exists>x. r = Inr x \<and> f x = Inr y)"
  by (cases r) (simp_all add: on_ok_def)

lemma on_ok_Inl: "on_ok r f = Inl e \<longleftrightarrow> r = Inl e \<or> (\<exists>x. r = Inr x \<and> f x = Inl e)"
  by (cases r) (simp_all add: on_ok_def)






























lemma chat_context_default:
  assumes "in_profiles d = Inr known"
    and "d \<notin> {JStr (u ''student''), JStr (u ''professional''), JStr (u ''retired'')}"
    and "profiles_get (if known then d else JStr (u ''default'')) [] = Inr ctx"
  shows "ctx = default_context"
proof (cases known)
  case False
  with assms(3) show ?thesis by (simp add: profiles_get_def PROFILE_CONTEXTS_def u_def)
next
  case True
  with assms(1) obtain s where s: "d = JStr s" "s \<in> set (map fst PROFILE_CONTEXTS)"
    by (cases d) (auto simp: in_profiles_def split: if_splits)
  with assms(2) have "s = u ''default''" by (auto simp: PROFILE_CONTEXTS_def)
  with assms(3) True s(1) show ?thesis
    by (simp add: profiles_get_def PROFILE_CONTEXTS_def u_def)
qed

section \<open>The claims\<close>

subsection \<open>The generation adapter\<close>

text \<open>
  Claim C3, as the specification states it, does not hold: the specification has the
  text cut at the first stop token of the priority order that is found, and nowhere
  else. For a continuation with \<^verbatim>\<open>Answer:\<close> before \<^verbatim>\<open>User:\<close> that
  would keep the text up to \<^verbatim>\<open>User:\<close>; the loop goes on after its first cut and
  cuts again at \<^verbatim>\<open>Answer:\<close>.
\<close>

theorem priority_cut_counterexample:
  "generate_text \<lparr>use_hf = True, hf_pipeline = Some (echo_pipeline (u '' Hi Answer: x User: y''))\<rparr>
     (u ''Q'') 150 = Inr (u ''Hi'') \<and>
   stop_loop stop_tokens (u ''Hi Answer: x User: y'') = u ''Hi'' \<and>
   spec_priority_cut stop_tokens (u ''Hi Answer: x User: y'') = u ''Hi Answer: x''"
  by (simp add: generate_text_def generate_try_def echo_pipeline_def clean_text_def
      split_lines_def stop_tokens_def strip_def isspace_def u_def)

text \<open>
  Claim C3, amended: the loop checks the four stop tokens in their order and cuts and
  strips at each one it finds in the text it has by then, so that the text it returns is
  the stripped text before the earliest occurrence of any of the four tokens, and is the
  text itself when it holds none of them.
\<close>

theorem stop_loop_cuts_at_earliest_token:
  "stop_loop stop_tokens result =
     (if list_ex (\<lambda>t. contains t result) stop_tokens
      then strip (before_earliest stop_tokens result) else result)"
  using stop_tokens_ok by (rule stop_loop_earliest)

theorem stop_loop_cuts_at_earliest_token_witness:
  "stop_loop stop_tokens (u ''Hi Answer: x User: y'') = strip (u ''Hi '') \<and>
   list_ex (\<lambda>t. contains t (u ''Hi Answer: x User: y'')) stop_tokens \<and>
   before_earliest stop_tokens (u ''Hi Answer: x User: y'') = u ''Hi ''"
proof -
  have a: "list_ex (\<lambda>t. contains t (u ''Hi Answer: x User: y'')) stop_tokens"
    by (simp add: stop_tokens_def u_def)
  have b: "before_earliest stop_tokens (u ''Hi Answer: x User: y'') = u ''Hi ''"
    by (simp add: stop_tokens_def u_def)
  from stop_loop_cuts_at_earliest_token[of "u ''Hi Answer: x User: y''"] a b
  show ?thesis by simp
qed

text \<open>
  Claim C4: when the backend is switched off or absent, as it is after a failed load, or
  when the call of the pipeline raises an exception derived from \<^verbatim>\<open>Exception\<close>,
  \<^verbatim>\<open>generate_text\<close> returns the fallback sentence and raises nothing.
\<close>

theorem generate_text_falls_back:
  assumes "\<not> use_hf b \<or> hf_pipeline b = None \<or>
     (\<exists>p e. hf_pipeline b = Some p \<and> p prompt max_len = Raises e \<and> is_Exception e)"
  shows "generate_text b prompt max_len =
           Inr (u ''Sorry '' @ [8212] @
                u '' AI backend not configured. Install HuggingFace/Torch or connect IBM/Granite.'') \<and>
         generate_text (load_backend (Inl e0)) prompt max_len =
           Inr (u ''Sorry '' @ [8212] @
                u '' AI backend not configured. Install HuggingFace/Torch or connect IBM/Granite.'')"
proof -
  have "generate_text b prompt max_len = Inr fallback"
    using assms
    by (cases "use_hf b"; cases "hf_pipeline b")
       (auto simp: generate_text_def generate_try_def)
  moreover have "generate_text (load_backend (Inl e0)) prompt max_len = Inr fallback"
    by (simp add: generate_text_def load_backend_def)
  ultimately show ?thesis unfolding fallback_def by simp
qed

theorem generate_text_falls_back_witness:
  "generate_text \<lparr>use_hf = True, hf_pipeline = Some (failing_pipeline BackendError)\<rparr> (u ''Q'') 150 =
     Inr (u ''Sorry '' @ [8212] @
          u '' AI backend not configured. Install HuggingFace/Torch or connect IBM/Granite.'')"
proof -
  let ?b = "\<lparr>use_hf = True, hf_pipeline = Some (failing_pipeline BackendError)\<rparr>"
  have "\<exists>p e. hf_pipeline ?b = Some p \<and> p (u ''Q'') 150 = Raises e \<and> is_Exception e"
    by (simp add: failing_pipeline_def is_Exception_def)
  then have "\<not> use_hf ?b \<or> hf_pipeline ?b = None \<or>
     (\<exists>p e. hf_pipeline ?b = Some p \<and> p (u ''Q'') 150 = Raises e \<and> is_Exception e)" by blast
  from generate_text_falls_back[OF this] show ?thesis by blast
qed

text \<open>
  Claim C5: \<^verbatim>\<open>clean_text\<close> keeps the first line of every run of lines with the
  same stripped form and drops the others: a line is dropped exactly when some line is
  kept already and its stripped form is that of the last kept line. The lines
  A, A, B, B, B, C become A, B, C; a duplicate that is not adjacent survives; the result
  has no whitespace at either end.
\<close>

theorem clean_text_collapses_runs:
  "clean_text text = strip (join_lines (collapse_runs (split_lines text))) \<and>
   dedup_loop final (line # rest) =
     dedup_loop (if final \<noteq> [] \<and> strip line = strip (last final) then final else final @ [line]) rest \<and>
   map strip (collapse_runs ls) = remdups_adj (map strip ls) \<and>
   dedup_loop [] [u ''A'', u ''A'', u ''B'', u ''B'', u ''B'', u ''C''] = [u ''A'', u ''B'', u ''C''] \<and>
   clean_text (u ''A'' @ [10] @ u ''A'' @ [10] @ u ''B'' @ [10] @ u ''B'' @ [10] @ u ''B'' @ [10] @ u ''C'')
     = u ''A'' @ [10] @ u ''B'' @ [10] @ u ''C'' \<and>
   clean_text (u ''A'' @ [10] @ u ''B'' @ [10] @ u ''A'') = u ''A'' @ [10] @ u ''B'' @ [10] @ u ''A'' \<and>
   takeWhile isspace (clean_text text) = [] \<and> takeWhile isspace (rev (clean_text text)) = []"
proof -
  have 1: "clean_text text = strip (join_lines (collapse_runs (split_lines text)))"
    by (simp add: clean_text_def dedup_loop_Nil)
  have 2: "dedup_loop final (line # rest) =
     dedup_loop (if final \<noteq> [] \<and> strip line = strip (last final) then final else final @ [line]) rest"
    by simp
  have 3: "map strip (collapse_runs ls) = remdups_adj (map strip ls)" by (rule collapse_runs_strip)
  have 4: "dedup_loop [] [u ''A'', u ''A'', u ''B'', u ''B'', u ''B'', u ''C''] = [u ''A'', u ''B'', u ''C'']"
    by (simp add: strip_def isspace_def u_def)
  have 5: "clean_text (u ''A'' @ [10] @ u ''A'' @ [10] @ u ''B'' @ [10] @ u ''B'' @ [10] @ u ''B'' @ [10] @ u ''C'')
     = u ''A'' @ [10] @ u ''B'' @ [10] @ u ''C''"
    by (simp add: clean_text_def split_lines_def strip_def isspace_def u_def)
  have 6: "clean_text (u ''A'' @ [10] @ u ''B'' @ [10] @ u ''A'') = u ''A'' @ [10] @ u ''B'' @ [10] @ u ''A''"
    by (simp add: clean_text_def split_lines_def strip_def isspace_def u_def)
  have 7: "takeWhile isspace (clean_text text) = []" unfolding clean_text_def by (rule strip_no_lead)
  have 8: "takeWhile isspace (rev (clean_text text)) = []" unfolding clean_text_def by (rule strip_no_trail)
  from 1 2 3 4 5 6 7 8 show ?thesis by blast
qed

theorem clean_text_collapses_runs_witness:
  "clean_text (u '' x'' @ [10] @ u ''x '' @ [10] @ u ''y'' @ [10] @ u ''x'' @ [10]) =
     u ''x'' @ [10] @ u ''y'' @ [10] @ u ''x'' \<and>
   collapse_runs (split_lines (u '' x'' @ [10] @ u ''x '' @ [10] @ u ''y'' @ [10] @ u ''x'' @ [10])) =
     [u '' x'', u ''y'', u ''x'', []]"
proof -
  have "collapse_runs (split_lines (u '' x'' @ [10] @ u ''x '' @ [10] @ u ''y'' @ [10] @ u ''x'' @ [10])) =
     [u '' x'', u ''y'', u ''x'', []]"
    by (simp add: split_lines_def strip_def isspace_def u_def)
  moreover have "strip (join_lines [u '' x'', u ''y'', u ''x'', []]) = u ''x'' @ [10] @ u ''y'' @ [10] @ u ''x''"
    by (simp add: strip_def isspace_def u_def)
  ultimately show ?thesis
    using clean_text_collapses_runs[of "u '' x'' @ [10] @ u ''x '' @ [10] @ u ''y'' @ [10] @ u ''x'' @ [10]"]
    by simp
qed

text \<open>
  Claim C8: whatever the pipeline generates, the text that \<^verbatim>\<open>generate_text\<close>
  returns does not contain \<^verbatim>\<open>Instruction:\<close>.
\<close>

theorem generated_text_has_no_instruction_marker:
  assumes "generate_text b prompt max_len = Inr r"
  shows "\<not> contains (u ''Instruction:'') r"
proof -
  have fb: "\<not> contains (u ''Instruction:'') fallback"
    by (simp add: fallback_def u_def)
  show ?thesis
  proof (cases "use_hf b \<and> hf_pipeline b \<noteq> None")
    case False
    then have "generate_text b prompt max_len = Inr fallback"
      by (cases "use_hf b"; cases "hf_pipeline b") (auto simp: generate_text_def)
    with assms fb show ?thesis by simp
  next
    case True
    then obtain p where p: "use_hf b" "hf_pipeline b = Some p" by auto
    show ?thesis
    proof (cases "p prompt max_len")
      case (Raises e)
      with p assms have "r = fallback"
        by (auto simp: generate_text_def generate_try_def split: if_splits)
      with fb show ?thesis by simp
    next
      case (Generated g)
      with p assms have
        "r = clean_text (stop_loop stop_tokens (strip (drop (length prompt) g)))"
        by (auto simp: generate_text_def generate_try_def)
      then show ?thesis by (simp only: instruction_absent not_False_eq_True)
    qed
  qed
qed

theorem generated_text_has_no_instruction_marker_witness:
  "generate_text \<lparr>use_hf = True,
      hf_pipeline = Some (echo_pipeline (u '' Save first. Instruction: repeat''))\<rparr> (u ''Q'') 150 =
     Inr (u ''Save first.'') \<and> \<not> contains (u ''Instruction:'') (u ''Save first.'')"
proof -
  have h: "generate_text \<lparr>use_hf = True,
      hf_pipeline = Some (echo_pipeline (u '' Save first. Instruction: repeat''))\<rparr> (u ''Q'') 150 =
     Inr (u ''Save first.'')"
    by (simp add: generate_text_def generate_try_def echo_pipeline_def clean_text_def
      split_lines_def stop_tokens_def strip_def isspace_def u_def)
  from generated_text_has_no_instruction_marker[OF h] h show ?thesis by blast
qed

subsection \<open>Amounts and the budget\<close>






subsection \<open>Prompts and profile contexts\<close>

text \<open>
  Claim C2: a demographic key outside student, professional and retired should resolve
  to the default context on all three endpoints. The chat endpoint does so: it replaces
  a key that is not in the table by \<^verbatim>\<open>default\<close> before it looks the context up. The
  budget and the insights endpoint look the key up as it came, with the empty string as
  the value of a missing key: for the key \<^verbatim>\<open>teen\<close> their prompts begin with an empty
  context, while an absent key gives the default context on all three.
\<close>

theorem unknown_demographic_contexts:
  "(dict_get data (u ''demographic'') (JStr (u ''default'')) = Inr d \<and>
    d \<notin> {JStr (u ''student''), JStr (u ''professional''), JStr (u ''retired'')} \<and>
    api_chat_prepare L data = Inr prompt \<longrightarrow>
      (\<exists>complexity message. prompt = chat_prompt L default_context complexity message)) \<and>
   (s \<notin> {u ''student'', u ''professional'', u ''retired'', u ''default''} \<longrightarrow>
      profiles_get (JStr s) [] = Inr []) \<and>
   api_chat_prepare L (JObj [(u ''demographic'', JStr (u ''teen''))]) =
     Inr (chat_prompt L default_context (JStr (u ''moderate'')) (JStr [])) \<and>
   api_budget_prepare L (JObj [(u ''demographic'', JStr (u ''teen''))]) =
     Inr (budget_summary L 0 0 0, budget_prompt L [] (JArr []) 0) \<and>
   api_insights_prepare L (JObj [(u ''demographic'', JStr (u ''teen''))]) =
     Inr (no_transactions, insights_prompt L [] []) \<and>
   api_budget_prepare L (JObj []) =
     Inr (budget_summary L 0 0 0, budget_prompt L default_context (JArr []) 0) \<and>
   api_insights_prepare L (JObj []) =
     Inr (no_transactions, insights_prompt L default_context [])"
proof -
  have 1: "dict_get data (u ''demographic'') (JStr (u ''default'')) = Inr d \<and>
    d \<notin> {JStr (u ''student''), JStr (u ''professional''), JStr (u ''retired'')} \<and>
    api_chat_prepare L data = Inr prompt \<longrightarrow>
      (\<exists>complexity message. prompt = chat_prompt L default_context complexity message)"
  proof
    assume a: "dict_get data (u ''demographic'') (JStr (u ''default'')) = Inr d \<and>
      d \<notin> {JStr (u ''student''), JStr (u ''professional''), JStr (u ''retired'')} \<and>
      api_chat_prepare L data = Inr prompt"
    then obtain message complexity known ctx where
      k: "in_profiles d = Inr known" and
      c: "profiles_get (if known then d else JStr (u ''default'')) [] = Inr ctx" and
      p: "prompt = chat_prompt L ctx complexity message"
      by (auto simp: api_chat_prepare_def on_ok_Inr Let_def)
    from a have "d \<notin> {JStr (u ''student''), JStr (u ''professional''), JStr (u ''retired'')}"
      by blast
    from chat_context_default[OF k this c] p
    show "\<exists>complexity message. prompt = chat_prompt L default_context complexity message"
      by blast
  qed
  have 2: "s \<notin> {u ''student'', u ''professional'', u ''retired'', u ''default''} \<longrightarrow>
      profiles_get (JStr s) [] = Inr []"
    by (simp add: profiles_get_def PROFILE_CONTEXTS_def)
  have 3: "api_chat_prepare L (JObj [(u ''demographic'', JStr (u ''teen''))]) =
     Inr (chat_prompt L default_context (JStr (u ''moderate'')) (JStr [])) \<and>
   api_budget_prepare L (JObj [(u ''demographic'', JStr (u ''teen''))]) =
     Inr (budget_summary L 0 0 0, budget_prompt L [] (JArr []) 0) \<and>
   api_insights_prepare L (JObj [(u ''demographic'', JStr (u ''teen''))]) =
     Inr (no_transactions, insights_prompt L [] []) \<and>
   api_budget_prepare L (JObj []) =
     Inr (budget_summary L 0 0 0, budget_prompt L default_context (JArr []) 0) \<and>
   api_insights_prepare L (JObj []) =
     Inr (no_transactions, insights_prompt L default_context [])"
    by (simp add: api_chat_prepare_def api_budget_prepare_def api_insights_prepare_def on_ok_def
        py_or_def in_profiles_def profiles_get_def PROFILE_CONTEXTS_def insights_line_def u_def)
  from 1 2 3 show ?thesis by blast
qed

theorem unknown_demographic_contexts_witness:
  "api_budget_prepare plain_lib (JObj [(u ''demographic'', JStr (u ''teen''))]) =
     Inr (budget_summary plain_lib 0 0 0, budget_prompt plain_lib [] (JArr []) 0) \<and>
   take 1 (budget_prompt plain_lib [] (JArr []) 0) = [10] \<and>
   profiles_get (JStr (u ''teen'')) [] = Inr []"
proof -
  have "u ''teen'' \<notin> {u ''student'', u ''professional'', u ''retired'', u ''default''}"
    by (simp add: u_def)
  with unknown_demographic_contexts[of _ _ plain_lib _ "u ''teen''"]
  show ?thesis by (simp add: budget_prompt_def)
qed



subsection \<open>Insights\<close>





end
